theory Spec2Isabelle
  imports Main "HOL-Library.Sublist"
begin

section \<open>The patch script \<^verbatim>\<open>update_stream_service.py\<close>\<close>

text \<open>
  The script reads one TypeScript file into the string \<^verbatim>\<open>text\<close>, edits the string in
  memory and writes it back at the very end. A Python \<^verbatim>\<open>str\<close> is modelled as a list of
  characters; every literal of the script consists of code points below 256, so it is a
  \<^typ>\<open>string\<close>. Offsets are list positions, counted from 0 as in Python.
\<close>

subsection \<open>String operations of Python used by the script\<close>

text \<open>
  \<^verbatim>\<open>text.find(sub)\<close>: the lowest offset at which \<^verbatim>\<open>sub\<close> starts, searching from the
  left; Python's \<^verbatim>\<open>-1\<close> is \<^term>\<open>None\<close>.
\<close>

fun find_str :: "'a list \<Rightarrow> 'a list \<Rightarrow> nat option" where
  "find_str [] sub = (if sub = [] then Some 0 else None)"
| "find_str (c # cs) sub =
     (if prefix sub (c # cs) then Some 0 else map_option Suc (find_str cs sub))"

text \<open>\<^verbatim>\<open>sub in text\<close>: substring containment.\<close>

fun contains :: "'a list \<Rightarrow> 'a list \<Rightarrow> bool" where
  "contains [] sub = (sub = [])"
| "contains (c # cs) sub = (prefix sub (c # cs) \<or> contains cs sub)"

text \<open>
  \<^verbatim>\<open>text.replace(old, new)\<close>: every occurrence of \<^verbatim>\<open>old\<close> is replaced, left to right,
  the search resuming behind the replaced occurrence (occurrences do not overlap and the
  inserted text is not searched). For an empty \<^verbatim>\<open>old\<close> Python inserts \<^verbatim>\<open>new\<close> before
  every character and at the end.
\<close>

function replace_str :: "'a list \<Rightarrow> 'a list \<Rightarrow> 'a list \<Rightarrow> 'a list" where
  "replace_str [] old new = (if old = [] then new else [])"
| "replace_str (c # cs) old new =
     (if old = [] then new @ c # replace_str cs old new
      else if prefix old (c # cs)
        then new @ replace_str (drop (length old) (c # cs)) old new
      else c # replace_str cs old new)"
  by pat_completeness auto
termination
  by (relation "measure (\<lambda>(text, old, new). length text)") auto

text \<open>
  Slicing \<^verbatim>\<open>xs[lo:hi]\<close> with step 1. A missing bound is \<^term>\<open>None\<close>; a negative bound
  counts from the end; every bound is clamped to \<open>0 .. len(xs)\<close>.
\<close>

definition slice_bound :: "nat \<Rightarrow> int \<Rightarrow> nat" where
  "slice_bound n i = (if i < 0 then nat (max (i + int n) 0) else min (nat i) n)"

definition py_slice :: "'a list \<Rightarrow> int option \<Rightarrow> int option \<Rightarrow> 'a list" where
  "py_slice xs lo hi =
     (let l = (case lo of None \<Rightarrow> 0 | Some i \<Rightarrow> slice_bound (length xs) i);
          h = (case hi of None \<Rightarrow> length xs | Some i \<Rightarrow> slice_bound (length xs) i)
      in take (h - l) (drop l xs))"

subsection \<open>Errors and the literals of the script\<close>

text \<open>
  The script stops by raising \<^verbatim>\<open>SystemExit(message)\<close>; reading a file that does not
  exist raises \<^verbatim>\<open>FileNotFoundError\<close>.
\<close>

datatype error = FileNotFoundError | SystemExit string

text \<open>The two messages, named as the specification names the two failures.\<close>

definition SignatureNotFound :: "string \<Rightarrow> error" where
  "SignatureNotFound name = SystemExit (name @ '' not found'')"

definition UnbalancedBlock :: "string \<Rightarrow> error" where
  "UnbalancedBlock name = SystemExit (''Unable to locate end of '' @ name)"

definition path :: string where
  "path =
     ''server/services/streamService.ts''"

definition fs_import :: string where
  "fs_import =
     ''import * as fs from 'fs';\<newline>''"

definition path_import :: string where
  "path_import =
     ''import * as path from 'path';\<newline>''"

definition field_marker :: string where
  "field_marker =
     ''private activeScreenshotTasks''"

definition target :: string where
  "target =
     ''  private mcpClients: Map<string, PlaywrightMcpClient>; // ?? MCP'' @ [CHR 0xBF, CHR 0xCD, CHR 0xBB, CHR 0xA7, CHR 0xB6, CHR 0xCB, CHR 0xBB, CHR 0xBA, CHR 0xB4, CHR 0xE6] @ ''\<newline>''"

definition field_decl :: string where
  "field_decl =
     ''  private activeScreenshotTasks: Set<string>;\<newline>''"

definition init_marker :: string where
  "init_marker =
     ''this.activeScreenshotTasks = new Set();''"

definition init_target :: string where
  "init_target =
     ''    this.mcpClients = new Map();\<newline>''"

definition init_replacement :: string where
  "init_replacement =
     ''    this.mcpClients = new Map();\<newline>'' @
     ''    this.activeScreenshotTasks = new Set();\<newline>''"

definition start_signature :: string where
  "start_signature =
     ''  startStreamWithMcp(runId: string, mcpClient: PlaywrightMcpClient): void {''"

definition new_start :: string where
  "new_start =
     ''  startStreamWithMcp(runId: string, mcpClient: PlaywrightMcpClient): void {\<newline>'' @
     ''    if (this.timers.has(runId)) {\<newline>'' @
     ''      return;\<newline>'' @
     ''    }\<newline>'' @
     ''\<newline>'' @
     ''    const fps = this.config.fps > 0 ? this.config.fps : 1;\<newline>'' @
     ''    const interval = Math.max(200, Math.floor(1000 / fps));\<newline>'' @
     ''    this.mcpClients.set(runId, mcpClient);\<newline>'' @
     ''\<newline>'' @
     ''    const timer = setInterval(async () => {\<newline>'' @
     ''      if (this.activeScreenshotTasks.has(runId)) {\<newline>'' @
     ''        return;\<newline>'' @
     ''      }\<newline>'' @
     ''\<newline>'' @
     ''      this.activeScreenshotTasks.add(runId);\<newline>'' @
     ''      this.stats.totalAttempts += 1;\<newline>'' @
     ''\<newline>'' @
     ''      try {\<newline>'' @
     ''        const result = await mcpClient.takeScreenshotForStream({ runId });\<newline>'' @
     ''        await this.pushFrameAndUpdateCache(runId, result.buffer);\<newline>'' @
     ''        this.stats.successfulScreenshots += 1;\<newline>'' @
     ''        this.updateAverageProcessingTime(result.durationMs ?? 0);\<newline>'' @
     ''      } catch (error) {\<newline>'' @
     ''        await this.handleStreamFailure(runId, error);\<newline>'' @
     ''      } finally {\<newline>'' @
     ''        this.activeScreenshotTasks.delete(runId);\<newline>'' @
     ''      }\<newline>'' @
     ''    }, interval);\<newline>'' @
     ''\<newline>'' @
     ''    this.timers.set(runId, timer);\<newline>'' @
     ''    console.log(`[StreamService] MCP stream started: ${runId}, interval=${interval}ms`);\<newline>'' @
     ''  }\<newline>''"

definition handle_signature :: string where
  "handle_signature =
     ''  private async handleStreamFailure(runId: string, rawError: any): Promise<void> {''"

definition new_handle :: string where
  "new_handle =
     ''  private async handleStreamFailure(runId: string, rawError: unknown): Promise<void> {\<newline>'' @
     ''    const message = rawError instanceof Error ? rawError.message : String(rawError ?? 'Unknown error');\<newline>'' @
     ''    const shortId = runId.substring(0, 8);\<newline>'' @
     ''\<newline>'' @
     ''    this.stats.fallbackFrames += 1;\<newline>'' @
     ''    console.warn(`[StreamService] MCP screenshot failed (${shortId}): ${message}`);\<newline>'' @
     ''\<newline>'' @
     ''    const cachedFrame = this.frameBuffer.get(runId);\<newline>'' @
     ''    if (cachedFrame) {\<newline>'' @
     ''      try {\<newline>'' @
     ''        await this.pushFrameWithoutCache(runId, cachedFrame);\<newline>'' @
     ''      } catch (pushError) {\<newline>'' @
     ''        console.error(`[StreamService] failed to resend cached frame: ${runId}`, pushError);\<newline>'' @
     ''      }\<newline>'' @
     ''    } else {\<newline>'' @
     ''      try {\<newline>'' @
     ''        const placeholder = await this.createPlaceholderFrame();\<newline>'' @
     ''        await this.pushFrameWithoutCache(runId, placeholder);\<newline>'' @
     ''      } catch (placeholderError) {\<newline>'' @
     ''        console.error(`[StreamService] failed to push placeholder frame: ${runId}`, placeholderError);\<newline>'' @
     ''      }\<newline>'' @
     ''    }\<newline>'' @
     ''\<newline>'' @
     ''    const failureRate = this.stats.totalAttempts > 0\<newline>'' @
     ''      ? (this.stats.fallbackFrames / this.stats.totalAttempts) * 100\<newline>'' @
     ''      : 0;\<newline>'' @
     ''\<newline>'' @
     ''    if (this.stats.totalAttempts > 20 && failureRate > 90) {\<newline>'' @
     ''      console.error(`[StreamService] failure rate ${failureRate.toFixed(1)}%, pausing stream: ${runId}`);\<newline>'' @
     ''      this.pauseStreamTemporarily(runId, 10000);\<newline>'' @
     ''    }\<newline>'' @
     ''  }\<newline>''"

subsection \<open>Locating a block\<close>

text \<open>
  \<^verbatim>\<open>
  brace_depth = 0
  end_index = None
  for i in range(start_index, len(text)):
      ch = text[i]
      if ch == '{':
          brace_depth += 1
      elif ch == '}':
          brace_depth -= 1
          if brace_depth == 0:
              end_index = i
              break
  \<close>
  The loop runs over the offsets of \<^verbatim>\<open>range(start_index, len(text))\<close>, so
  \<^verbatim>\<open>text[i]\<close> is always in range. \<^verbatim>\<open>brace_depth\<close> is a Python integer and may
  become negative. The result is \<^verbatim>\<open>end_index\<close>.
\<close>

fun scan :: "string \<Rightarrow> nat list \<Rightarrow> int \<Rightarrow> nat option" where
  "scan text [] brace_depth = None"
| "scan text (i # is) brace_depth =
     (let ch = text ! i in
      if ch = CHR ''{'' then scan text is (brace_depth + 1)
      else if ch = CHR ''}'' then
        (if brace_depth - 1 = 0 then Some i else scan text is (brace_depth - 1))
      else scan text is brace_depth)"

record span =
  start_index :: nat
  end_index :: nat

text \<open>
  The script contains the search and the scan twice, once per method, differing in the
  signature and in the name used in the messages.
\<close>

definition locate :: "string \<Rightarrow> string \<Rightarrow> string \<Rightarrow> error + span" where
  "locate text signature name =
     (case find_str text signature of
        None \<Rightarrow> Inl (SignatureNotFound name)
      | Some start \<Rightarrow>
          (case scan text [start..<length text] 0 of
             None \<Rightarrow> Inl (UnbalancedBlock name)
           | Some e \<Rightarrow> Inr \<lparr>start_index = start, end_index = e\<rparr>))"

subsection \<open>Replacing a block\<close>

text \<open>\<^verbatim>\<open>text[:start_index] + new + text[end_index + 1:]\<close>\<close>

definition replace_block :: "string \<Rightarrow> span \<Rightarrow> string \<Rightarrow> string" where
  "replace_block text sp new =
     py_slice text None (Some (int (start_index sp))) @ new @
     py_slice text (Some (int (end_index sp) + 1)) None"

subsection \<open>The edits, in the order of the script\<close>

text \<open>
  \<^verbatim>\<open>
  text = text.replace("import * as fs from 'fs';\n", "")
  text = text.replace("import * as path from 'path';\n", "")
  \<close>
\<close>

definition remove_imports :: "string \<Rightarrow> string" where
  "remove_imports text = replace_str (replace_str text fs_import []) path_import []"

text \<open>
  The two guarded insertions have one shape:
  \<^verbatim>\<open>
  if marker not in text:
      text = text.replace(anchor, replacement)
  \<close>
  For the field declaration the anchor is \<^verbatim>\<open>target\<close> and the replacement is
  \<^verbatim>\<open>target + "  private activeScreenshotTasks: Set<string>;\n"\<close>; for the
  initialisation both are literals.
\<close>

definition insert_if_absent :: "string \<Rightarrow> string \<Rightarrow> string \<Rightarrow> string \<Rightarrow> string" where
  "insert_if_absent marker anchor replacement text =
     (if \<not> contains text marker then replace_str text anchor replacement else text)"

definition ensure_field :: "string \<Rightarrow> string" where
  "ensure_field = insert_if_absent field_marker target (target @ field_decl)"

definition ensure_init :: "string \<Rightarrow> string" where
  "ensure_init = insert_if_absent init_marker init_target init_replacement"

text \<open>
  The two block replacements have one shape as well: locate, stop with the error if
  there is one, else splice.
\<close>

definition locate_and_replace :: "string \<Rightarrow> string \<Rightarrow> string \<Rightarrow> string \<Rightarrow> error + string" where
  "locate_and_replace signature name new text =
     (case locate text signature name of
        Inl e \<Rightarrow> Inl e
      | Inr sp \<Rightarrow> Inr (replace_block text sp new))"

definition replace_start :: "string \<Rightarrow> error + string" where
  "replace_start = locate_and_replace start_signature ''startStreamWithMcp'' new_start"

definition replace_handle :: "string \<Rightarrow> error + string" where
  "replace_handle = locate_and_replace handle_signature ''handleStreamFailure'' new_handle"

text \<open>All edits in sequence, each on the result of the one before.\<close>

definition patch :: "string \<Rightarrow> error + string" where
  "patch text =
     (case replace_start (ensure_init (ensure_field (remove_imports text))) of
        Inl e \<Rightarrow> Inl e
      | Inr text' \<Rightarrow> replace_handle text')"

text \<open>
  The whole run on a file system, a map from paths to contents:
  \<^verbatim>\<open>text = path.read_text(encoding="utf-8")\<close> first,
  \<^verbatim>\<open>path.write_text(text, encoding="utf-8")\<close> last, reached only when nothing has
  been raised before.
\<close>

definition run :: "(string \<rightharpoonup> string) \<Rightarrow> (error + unit) \<times> (string \<rightharpoonup> string)" where
  "run fs =
     (case fs path of
        None \<Rightarrow> (Inl FileNotFoundError, fs)
      | Some text \<Rightarrow>
          (case patch text of
             Inl e \<Rightarrow> (Inl e, fs)
           | Inr text' \<Rightarrow> (Inr (), fs(path \<mapsto> text'))))"

subsection \<open>Notions used to state the properties\<close>

text \<open>
  \<open>first_occurrence sub xs i\<close>: \<open>sub\<close> starts at offset \<open>i\<close> of \<open>xs\<close> and at no smaller
  offset. That \<open>sub\<close> occurs somewhere in \<open>xs\<close> is \<^term>\<open>sublist sub xs\<close>.
\<close>

definition first_occurrence :: "'a list \<Rightarrow> 'a list \<Rightarrow> nat \<Rightarrow> bool" where
  "first_occurrence sub xs i \<longleftrightarrow>
     i \<le> length xs \<and> prefix sub (drop i xs) \<and> (\<forall>j<i. \<not> prefix sub (drop j xs))"

text \<open>
  The value of the depth counter after a stretch of text: the number of open braces
  minus the number of close braces.
\<close>

definition depth_after :: "string \<Rightarrow> int" where
  "depth_after xs = int (count_list xs CHR ''{'') - int (count_list xs CHR ''}'')"

text \<open>\<open>segment xs s i\<close> is the stretch from offset \<open>s\<close> to offset \<open>i\<close>, both included.\<close>

definition segment :: "'a list \<Rightarrow> nat \<Rightarrow> nat \<Rightarrow> 'a list" where
  "segment xs s i = take (Suc i - s) (drop s xs)"

text \<open>
  \<open>closes_at text s e\<close>: offset \<open>e\<close> holds a close brace, and the counter started at \<open>s\<close>
  is zero once that brace has been counted.
\<close>

definition closes_at :: "string \<Rightarrow> nat \<Rightarrow> nat \<Rightarrow> bool" where
  "closes_at text s e \<longleftrightarrow>
     s \<le> e \<and> e < length text \<and> text ! e = CHR ''}'' \<and> depth_after (segment text s e) = 0"

text \<open>
  The wording of the specification, "the counter returns to zero after having been
  incremented at least once": after offset \<open>i\<close> the counter started at \<open>s\<close> is zero and
  an open brace has been seen. Nothing is said about the character at \<open>i\<close>.
\<close>

definition returns_to_zero :: "string \<Rightarrow> nat \<Rightarrow> nat \<Rightarrow> bool" where
  "returns_to_zero text s i \<longleftrightarrow>
     s \<le> i \<and> i < length text \<and> CHR ''{'' \<in> set (segment text s i) \<and>
     depth_after (segment text s i) = 0"


text \<open>Text in which every brace has its partner, as a grammar.\<close>

inductive balanced :: "string \<Rightarrow> bool" where
  balanced_Nil: "balanced []"
| balanced_other: "c \<noteq> CHR ''{'' \<Longrightarrow> c \<noteq> CHR ''}'' \<Longrightarrow> balanced xs \<Longrightarrow> balanced (c # xs)"
| balanced_block: "balanced xs \<Longrightarrow> balanced ys \<Longrightarrow> balanced (CHR ''{'' # xs @ CHR ''}'' # ys)"

text \<open>
  The loop of \<^const>\<open>scan\<close> read off the suffix that starts at \<^verbatim>\<open>start_index\<close>; the
  result is the distance from \<^verbatim>\<open>start_index\<close>. It is used in proofs only.
\<close>

fun scan_chars :: "string \<Rightarrow> int \<Rightarrow> nat option" where
  "scan_chars [] d = None"
| "scan_chars (c # cs) d =
     (if c = CHR ''{'' then map_option Suc (scan_chars cs (d + 1))
      else if c = CHR ''}'' then
        (if d - 1 = 0 then Some 0 else map_option Suc (scan_chars cs (d - 1)))
      else map_option Suc (scan_chars cs d))"

text \<open>
  A small file holding the two methods the script rewrites, and the same file with the
  two new method bodies in their place.
\<close>

definition sample_source :: string where
  "sample_source =
     ''class StreamService {\<newline>'' @
     start_signature @ ''\<newline>'' @
     ''  }\<newline>'' @
     ''\<newline>'' @
     handle_signature @ ''\<newline>'' @
     ''  }\<newline>'' @
     ''}\<newline>''"

definition sample_patched :: string where
  "sample_patched =
     ''class StreamService {\<newline>'' @
     new_start @
     ''\<newline>'' @
     ''\<newline>'' @
     new_handle @
     ''\<newline>'' @
     ''}\<newline>''"

text \<open>
  The sample after the first replacement of the first run, and after the first
  replacement of a second run.
\<close>

definition sample_after_start :: string where
  "sample_after_start =
     ''class StreamService {\<newline>'' @
     new_start @
     ''\<newline>'' @
     ''\<newline>'' @
     handle_signature @ ''\<newline>'' @
     ''  }\<newline>'' @
     ''}\<newline>''"

definition sample_rerun_after_start :: string where
  "sample_rerun_after_start =
     ''class StreamService {\<newline>'' @
     new_start @
     ''\<newline>'' @
     ''\<newline>'' @
     ''\<newline>'' @
     new_handle @
     ''\<newline>'' @
     ''}\<newline>''"

section \<open>Properties of the operations\<close>

subsection \<open>Searching and replacing\<close>

text \<open>
  \<^const>\<open>contains\<close> and \<^const>\<open>find_str\<close> agree with the library notion of a contiguous
  sublist, and \<^const>\<open>find_str\<close> returns the first occurrence.
\<close>

lemma contains_iff_sublist: "contains text sub \<longleftrightarrow> sublist sub text"
  by (induction "text") (auto simp: sublist_Cons_right)

lemma find_str_None_iff: "find_str text sub = None \<longleftrightarrow> \<not> contains text sub"
  by (induction "text") auto

lemma find_str_Some_first:
  "find_str text sub = Some i \<Longrightarrow>
     i \<le> length text \<and> prefix sub (drop i text) \<and> (\<forall>j<i. \<not> prefix sub (drop j text))"
proof (induction "text" arbitrary: i)
  case Nil
  then show ?case by (auto split: if_splits)
next
  case (Cons c cs)
  show ?case
  proof (cases "prefix sub (c # cs)")
    case True
    with Cons.prems show ?thesis by simp
  next
    case False
    with Cons.prems obtain k where k: "find_str cs sub = Some k" "i = Suc k"
      by auto
    from Cons.IH [OF k(1)] False k(2) show ?thesis
      by (auto simp: less_Suc_eq_0_disj)
  qed
qed

lemma first_occurrence_unique:
  "first_occurrence sub xs i \<Longrightarrow> first_occurrence sub xs j \<Longrightarrow> i = j"
  unfolding first_occurrence_def by (meson linorder_neqE_nat)

lemma find_str_first_occurrence:
  "find_str xs sub = Some i \<longleftrightarrow> first_occurrence sub xs i"
proof
  assume "find_str xs sub = Some i"
  then show "first_occurrence sub xs i"
    unfolding first_occurrence_def by (rule find_str_Some_first)
next
  assume fo: "first_occurrence sub xs i"
  then have "prefix sub (drop i xs)" "i \<le> length xs"
    by (simp_all add: first_occurrence_def)
  then have "sublist sub xs"
    by (metis append_take_drop_id prefix_def sublist_def)
  then obtain k where k: "find_str xs sub = Some k"
    using find_str_None_iff [of xs sub] contains_iff_sublist [of xs sub] by auto
  then have "first_occurrence sub xs k"
    unfolding first_occurrence_def by (rule find_str_Some_first)
  with fo have "i = k"
    by (rule first_occurrence_unique)
  with k show "find_str xs sub = Some i"
    by simp
qed

lemma sublist_first_occurrence: "sublist sub xs \<longleftrightarrow> (\<exists>i. first_occurrence sub xs i)"
  using find_str_None_iff [of xs sub] contains_iff_sublist [of xs sub]
    find_str_first_occurrence [of xs sub]
  by (metis not_Some_eq)

lemma find_str_le: "find_str xs sub = Some s \<Longrightarrow> s \<le> length xs"
  by (simp add: find_str_first_occurrence first_occurrence_def)

lemma replace_str_absent: "\<not> contains text old \<Longrightarrow> replace_str text old new = text"
  by (induction "text") auto

lemma prefix_append_take:
  assumes "prefix xs (ys @ zs)" and "length xs \<le> length ys + n"
  shows "prefix xs (ys @ take n zs)"
proof -
  from assms(1) have "xs = take (length xs) (ys @ zs)"
    by (metis append_eq_conv_conj prefix_def)
  also have "\<dots> = take (length xs) (ys @ take n zs)"
    using assms(2) by (auto simp: min_def)
  finally have "xs = take (length xs) (ys @ take n zs)" .
  then show ?thesis
    by (metis take_is_prefix)
qed

lemma first_occurrence_append:
  assumes "\<not> contains (pre @ butlast sub) sub" and "prefix sub rest"
  shows "first_occurrence sub (pre @ rest) (length pre)"
proof -
  have "\<not> prefix sub (drop j (pre @ rest))" if j: "j < length pre" for j
  proof
    assume "prefix sub (drop j (pre @ rest))"
    then have p: "prefix sub (drop j pre @ rest)"
      using j by simp
    have "length sub \<le> length (drop j pre) + (length sub - 1)"
      using j by simp
    with p have "prefix sub (drop j pre @ take (length sub - 1) rest)"
      by (rule prefix_append_take)
    moreover have "take (length sub - 1) rest = butlast sub"
      using assms(2) by (auto simp: prefix_def butlast_conv_take)
    ultimately have "prefix sub (drop j pre @ butlast sub)"
      by simp
    then obtain r where "drop j pre @ butlast sub = sub @ r"
      by (auto simp: prefix_def)
    then have "pre @ butlast sub = take j pre @ sub @ r"
      by (metis append_assoc append_take_drop_id)
    then have "sublist sub (pre @ butlast sub)"
      unfolding sublist_def by blast
    with assms(1) show False
      by (simp add: contains_iff_sublist)
  qed
  with assms(2) show ?thesis
    by (simp add: first_occurrence_def)
qed

subsection \<open>Slices with offsets in range\<close>

lemma py_slice_to: "py_slice xs None (Some (int s)) = take s xs"
  by (simp add: py_slice_def slice_bound_def min_def)

lemma py_slice_from: "py_slice xs (Some (int e + 1)) None = drop (Suc e) xs"
  by (auto simp: py_slice_def slice_bound_def min_def nat_add_distrib)

lemma replace_block_eq:
  "replace_block text sp new = take (start_index sp) text @ new @ drop (Suc (end_index sp)) text"
  by (simp add: replace_block_def py_slice_to py_slice_from)

subsection \<open>The scan in terms of the depth counter\<close>

text \<open>
  \<^const>\<open>scan\<close> stops at the first close brace at which the counter is zero, and returns
  nothing when there is none.
\<close>

lemma depth_after_Nil [simp]: "depth_after [] = 0"
  by (simp add: depth_after_def)

lemma depth_after_Cons [simp]:
  "depth_after (c # cs) =
     (if c = CHR ''{'' then 1 else if c = CHR ''}'' then - 1 else 0) + depth_after cs"
  by (simp add: depth_after_def)

lemma depth_after_append [simp]: "depth_after (xs @ ys) = depth_after xs + depth_after ys"
  by (induction xs) auto

lemma scan_upt:
  "s \<le> length text \<Longrightarrow>
     scan text [s..<length text] d = map_option ((+) s) (scan_chars (drop s text) d)"
proof (induction "length text - s" arbitrary: s d)
  case 0
  then show ?case by simp
next
  case (Suc n)
  then have lt: "s < length text" and n: "n = length text - Suc s"
    by auto
  have upt: "[s..<length text] = s # [Suc s..<length text]"
    using lt by (simp add: upt_conv_Cons)
  have drp: "drop s text = text ! s # drop (Suc s) text"
    using lt by (simp add: Cons_nth_drop_Suc)
  have IH: "scan text [Suc s..<length text] d' =
      map_option ((+) (Suc s)) (scan_chars (drop (Suc s) text) d')" for d'
    using Suc.hyps(1) [OF n] lt by simp
  have shift: "map_option ((+) s) (map_option Suc r) = map_option ((+) (Suc s)) r"
    for r :: "nat option"
    by (cases r) auto
  show ?case
    unfolding upt drp
    by (simp add: IH shift)
qed

lemma scan_chars_Some_iff:
  "scan_chars xs d = Some k \<longleftrightarrow>
     k < length xs \<and> xs ! k = CHR ''}'' \<and> d + depth_after (take (Suc k) xs) = 0 \<and>
     (\<forall>j<k. \<not> (xs ! j = CHR ''}'' \<and> d + depth_after (take (Suc j) xs) = 0))"
proof (induction xs arbitrary: d k)
  case Nil
  then show ?case by simp
next
  case (Cons c cs)
  show ?case
  proof (cases k)
    case 0
    then show ?thesis by auto
  next
    case (Suc m)
    then show ?thesis
      by (auto simp: Cons.IH All_less_Suc2 add.commute add.left_commute)
  qed
qed

lemma scan_chars_None_iff:
  "scan_chars xs d = None \<longleftrightarrow>
     (\<forall>k<length xs. \<not> (xs ! k = CHR ''}'' \<and> d + depth_after (take (Suc k) xs) = 0))"
proof (induction xs arbitrary: d)
  case Nil
  then show ?case by simp
next
  case (Cons c cs)
  show ?case
    by (auto simp: Cons.IH All_less_Suc2 add.commute add.left_commute)
qed

lemma segment_drop: "segment xs s (s + k) = take (Suc k) (drop s xs)"
  by (simp add: segment_def)

lemma closes_at_shift:
  "s \<le> length text \<Longrightarrow>
     closes_at text s (s + k) \<longleftrightarrow>
       k < length (drop s text) \<and> drop s text ! k = CHR ''}'' \<and>
       depth_after (take (Suc k) (drop s text)) = 0"
  by (auto simp: closes_at_def segment_def)

lemma closes_at_ge: "closes_at text s e \<Longrightarrow> s \<le> e"
  by (simp add: closes_at_def)

lemma scan_Some_iff:
  assumes s: "s \<le> length text"
  shows "scan text [s..<length text] 0 = Some e \<longleftrightarrow>
           closes_at text s e \<and> (\<forall>j<e. \<not> closes_at text s j)"
proof
  assume "scan text [s..<length text] 0 = Some e"
  then obtain k where k: "scan_chars (drop s text) 0 = Some k" and e: "e = s + k"
    using s by (auto simp: scan_upt)
  from k have c: "closes_at text s (s + k)"
    using s by (simp add: scan_chars_Some_iff closes_at_shift)
  have "\<not> closes_at text s j" if "j < e" for j
  proof
    assume cj: "closes_at text s j"
    then have "s \<le> j" by (rule closes_at_ge)
    then obtain m where m: "j = s + m"
      using le_Suc_ex by blast
    with that e have "m < k" by simp
    with k cj m s show False
      by (auto simp: scan_chars_Some_iff closes_at_shift)
  qed
  with c e show "closes_at text s e \<and> (\<forall>j<e. \<not> closes_at text s j)"
    by simp
next
  assume a: "closes_at text s e \<and> (\<forall>j<e. \<not> closes_at text s j)"
  then have "s \<le> e" by (auto dest: closes_at_ge)
  then obtain k where e: "e = s + k"
    using le_Suc_ex by blast
  have "\<not> closes_at text s (s + j)" if "j < k" for j
    using a e that by simp
  then have "scan_chars (drop s text) 0 = Some k"
    using a e s by (auto simp: scan_chars_Some_iff closes_at_shift)
  then show "scan text [s..<length text] 0 = Some e"
    using s e by (simp add: scan_upt)
qed

lemma scan_None_iff:
  assumes s: "s \<le> length text"
  shows "scan text [s..<length text] 0 = None \<longleftrightarrow> (\<forall>e. \<not> closes_at text s e)"
proof
  assume "scan text [s..<length text] 0 = None"
  then have n: "scan_chars (drop s text) 0 = None"
    using s by (simp add: scan_upt)
  show "\<forall>e. \<not> closes_at text s e"
  proof (intro allI notI)
    fix e assume ce: "closes_at text s e"
    then have "s \<le> e" by (rule closes_at_ge)
    then obtain k where "e = s + k"
      using le_Suc_ex by blast
    with ce n s show False
      by (auto simp: scan_chars_None_iff closes_at_shift)
  qed
next
  assume "\<forall>e. \<not> closes_at text s e"
  then have "\<not> closes_at text s (s + k)" for k
    by simp
  then have "scan_chars (drop s text) 0 = None"
    using s by (auto simp: scan_chars_None_iff closes_at_shift)
  then show "scan text [s..<length text] 0 = None"
    using s by (simp add: scan_upt)
qed

subsection \<open>Scanning balanced text\<close>

lemma scan_chars_plain:
  "CHR ''{'' \<notin> set p \<Longrightarrow> CHR ''}'' \<notin> set p \<Longrightarrow>
     scan_chars (p @ zs) d = map_option ((+) (length p)) (scan_chars zs d)"
proof (induction p)
  case Nil
  show ?case by (simp add: option.map_ident)
next
  case (Cons c p)
  then show ?case
    by (cases "scan_chars zs d") auto
qed

lemma scan_chars_balanced:
  "balanced body \<Longrightarrow> 1 \<le> d \<Longrightarrow>
     scan_chars (body @ zs) d = map_option ((+) (length body)) (scan_chars zs d)"
proof (induction body arbitrary: d zs rule: balanced.induct)
  case balanced_Nil
  show ?case by (simp add: option.map_ident)
next
  case (balanced_other c xs)
  then show ?case
    by (cases "scan_chars zs d") auto
next
  case (balanced_block xs ys)
  have "scan_chars ((CHR ''{'' # xs @ CHR ''}'' # ys) @ zs) d =
      map_option Suc (scan_chars (xs @ CHR ''}'' # ys @ zs) (d + 1))"
    by simp
  also have "\<dots> = map_option Suc (map_option ((+) (length xs))
      (scan_chars (CHR ''}'' # ys @ zs) (d + 1)))"
    using balanced_block.IH(1) [of "d + 1" "CHR ''}'' # ys @ zs"] balanced_block.prems
    by simp
  also have "scan_chars (CHR ''}'' # ys @ zs) (d + 1) = map_option Suc (scan_chars (ys @ zs) d)"
    using balanced_block.prems by simp
  also have "scan_chars (ys @ zs) d = map_option ((+) (length ys)) (scan_chars zs d)"
    using balanced_block.IH(2) [of d zs] balanced_block.prems by simp
  finally show ?case
    by (cases "scan_chars zs d") auto
qed

lemma depth_after_plain:
  "CHR ''{'' \<notin> set p \<Longrightarrow> CHR ''}'' \<notin> set p \<Longrightarrow> depth_after p = 0"
  by (induction p) auto

lemma balanced_depth: "balanced xs \<Longrightarrow> depth_after xs = 0"
  by (induction rule: balanced.induct) auto

lemma balanced_prefix_depth: "balanced xs \<Longrightarrow> 0 \<le> depth_after (take n xs)"
proof (induction xs arbitrary: n rule: balanced.induct)
  case balanced_Nil
  show ?case by simp
next
  case (balanced_other c xs)
  then show ?case by (cases n) auto
next
  case (balanced_block xs ys)
  show ?case
  proof (cases n)
    case 0
    then show ?thesis by simp
  next
    case (Suc m)
    show ?thesis
    proof (cases "m \<le> length xs")
      case True
      with Suc balanced_block.IH(1) [of m] show ?thesis by simp
    next
      case False
      then obtain r where r: "m - length xs = Suc r"
        by (metis Suc_diff_Suc not_le_imp_less)
      with False Suc balanced_block.IH(2) [of r] balanced_depth [OF balanced_block.hyps(1)]
      show ?thesis by simp
    qed
  qed
qed

lemma balanced_plain:
  "CHR ''{'' \<notin> set p \<Longrightarrow> CHR ''}'' \<notin> set p \<Longrightarrow> balanced p"
  by (induction p) (auto intro: balanced.intros)

lemma balanced_append: "balanced xs \<Longrightarrow> balanced ys \<Longrightarrow> balanced (xs @ ys)"
proof (induction xs rule: balanced.induct)
  case balanced_Nil
  then show ?case by simp
next
  case (balanced_other c xs)
  then show ?case by (simp add: balanced.balanced_other)
next
  case (balanced_block xs zs)
  then have "balanced (CHR ''{'' # xs @ CHR ''}'' # (zs @ ys))"
    by (intro balanced.balanced_block) simp_all
  then show ?case by simp
qed

subsection \<open>The outcomes of locate\<close>

lemma error_distinct: "SignatureNotFound name \<noteq> UnbalancedBlock name"
proof
  assume "SignatureNotFound name = UnbalancedBlock name"
  then have "length (name @ '' not found'') = length (''Unable to locate end of '' @ name)"
    by (simp add: SignatureNotFound_def UnbalancedBlock_def)
  then show False by simp
qed

lemma locate_Inr_iff:
  "locate text signature name = Inr sp \<longleftrightarrow>
     first_occurrence signature text (start_index sp) \<and>
     closes_at text (start_index sp) (end_index sp) \<and>
     (\<forall>j<end_index sp. \<not> closes_at text (start_index sp) j)"
proof (cases "find_str text signature")
  case None
  then have "\<not> first_occurrence signature text (start_index sp)"
    using find_str_first_occurrence [of "text" signature "start_index sp"] by simp
  with None show ?thesis
    by (simp add: locate_def)
next
  case (Some s)
  then have s: "s \<le> length text"
    by (rule find_str_le)
  have fo: "first_occurrence signature text s' \<longleftrightarrow> s' = s" for s'
    using Some find_str_first_occurrence [of "text" signature s'] by auto
  show ?thesis
  proof (cases "scan text [s..<length text] 0")
    case None
    then have "\<not> closes_at text s e" for e
      using scan_None_iff [OF s] by simp
    with Some None show ?thesis
      by (auto simp: locate_def fo)
  next
    case (Some e)
    then have e: "closes_at text s e' \<and> (\<forall>j<e'. \<not> closes_at text s j) \<longleftrightarrow> e' = e" for e'
      using scan_Some_iff [OF s, of e'] by auto
    have "sp = \<lparr>start_index = s, end_index = e\<rparr> \<longleftrightarrow> start_index sp = s \<and> end_index sp = e"
      by (cases sp) auto
    with \<open>find_str text signature = Some s\<close> Some show ?thesis
      using e [of "end_index sp"] by (auto simp: locate_def fo)
  qed
qed





subsection \<open>Signatures that open the block\<close>

text \<open>
  When the first brace of the signature is an open brace, the counter is positive from
  that brace up to the end of the scan, so it can only reach zero at a close brace: the
  scan ends at the first offset at which the counter has returned to zero. Both
  signatures of the script are of this kind.
\<close>

lemma scan_chars_first_zero:
  "1 \<le> d \<Longrightarrow>
     scan_chars zs d = Some k \<longleftrightarrow>
       k < length zs \<and> d + depth_after (take (Suc k) zs) = 0 \<and>
       (\<forall>j<k. d + depth_after (take (Suc j) zs) \<noteq> 0)"
proof (induction zs arbitrary: d k)
  case Nil
  then show ?case by simp
next
  case (Cons c cs)
  consider (opn) "c = CHR ''{''" | (cls1) "c = CHR ''}''" "d = 1" | (cls) "c = CHR ''}''" "d \<noteq> 1"
    | (other) "c \<noteq> CHR ''{''" "c \<noteq> CHR ''}''"
    by blast
  then show ?case
  proof cases
    case opn
    have d: "1 \<le> d + 1" using Cons.prems by simp
    show ?thesis
    proof (cases k)
      case 0
      with opn Cons.prems show ?thesis by auto
    next
      case (Suc m)
      with opn Cons.prems Cons.IH [OF d, of m] show ?thesis
        by (simp add: All_less_Suc2 add.assoc)
    qed
  next
    case cls1
    then show ?thesis
      by (cases k) auto
  next
    case cls
    with Cons.prems have d: "1 \<le> d - 1" by simp
    show ?thesis
    proof (cases k)
      case 0
      with cls Cons.prems show ?thesis by auto
    next
      case (Suc m)
      with cls Cons.prems Cons.IH [OF d, of m] show ?thesis
        by (simp add: All_less_Suc2 algebra_simps)
    qed
  next
    case other
    show ?thesis
    proof (cases k)
      case 0
      with other Cons.prems show ?thesis by auto
    next
      case (Suc m)
      with other Cons.prems Cons.IH [OF Cons.prems, of m] show ?thesis
        by (simp add: All_less_Suc2)
    qed
  qed
qed

lemma returns_to_zero_shift:
  "s \<le> length text \<Longrightarrow>
     returns_to_zero text s (s + i) \<longleftrightarrow>
       i < length (drop s text) \<and> CHR ''{'' \<in> set (take (Suc i) (drop s text)) \<and>
       depth_after (take (Suc i) (drop s text)) = 0"
  by (auto simp: returns_to_zero_def segment_def)

lemma returns_to_zero_ge: "returns_to_zero text s i \<Longrightarrow> s \<le> i"
  by (simp add: returns_to_zero_def)

lemma zero_after_open:
  assumes "CHR ''{'' \<notin> set p" and "CHR ''}'' \<notin> set p"
  shows "i < length (p @ CHR ''{'' # ys) \<and> CHR ''{'' \<in> set (take (Suc i) (p @ CHR ''{'' # ys)) \<and>
           depth_after (take (Suc i) (p @ CHR ''{'' # ys)) = 0 \<longleftrightarrow>
         (\<exists>k. i = length p + 1 + k \<and> k < length ys \<and> 1 + depth_after (take (Suc k) ys) = 0)"
proof (cases "i \<le> length p")
  case True
  have "\<not> (CHR ''{'' \<in> set (take (Suc i) (p @ CHR ''{'' # ys)) \<and>
      depth_after (take (Suc i) (p @ CHR ''{'' # ys)) = 0)"
  proof (cases "i = length p")
    case True
    then show ?thesis
      using assms by (simp add: depth_after_plain)
  next
    case False
    with True have "take (Suc i) (p @ CHR ''{'' # ys) = take (Suc i) p"
      by simp
    with assms(1) show ?thesis
      by (auto dest: in_set_takeD)
  qed
  with True show ?thesis by auto
next
  case False
  define k where "k = i - length p - 1"
  with False have k: "i = length p + 1 + k"
    by simp
  then have "take (Suc i) (p @ CHR ''{'' # ys) = p @ CHR ''{'' # take (Suc k) ys"
    by simp
  with k assms show ?thesis
    by (simp add: depth_after_plain)
qed

lemma scan_open_Some_iff:
  assumes s: "s \<le> length text"
    and xs: "drop s text = p @ CHR ''{'' # ys"
    and p: "CHR ''{'' \<notin> set p" "CHR ''}'' \<notin> set p"
  shows "scan text [s..<length text] 0 = Some e \<longleftrightarrow>
           returns_to_zero text s e \<and> (\<forall>j<e. \<not> returns_to_zero text s j)"
proof -
  have sc: "scan text [s..<length text] 0 =
      map_option (\<lambda>k. s + (length p + 1 + k)) (scan_chars ys 1)"
    using s by (simp add: scan_upt xs scan_chars_plain [OF p] option.map_comp comp_def)
  have rz: "returns_to_zero text s (s + i) \<longleftrightarrow>
      (\<exists>k. i = length p + 1 + k \<and> k < length ys \<and> 1 + depth_after (take (Suc k) ys) = 0)" for i
    unfolding returns_to_zero_shift [OF s] xs by (rule zero_after_open [OF p])
  show ?thesis
  proof
    assume "scan text [s..<length text] 0 = Some e"
    then obtain k where k: "scan_chars ys 1 = Some k" and e: "e = s + (length p + 1 + k)"
      by (auto simp: sc)
    from k have z: "k < length ys" "1 + depth_after (take (Suc k) ys) = 0"
      and f: "\<And>j. j < k \<Longrightarrow> 1 + depth_after (take (Suc j) ys) \<noteq> 0"
      by (simp_all add: scan_chars_first_zero)
    from z have "returns_to_zero text s (s + (length p + 1 + k))"
      unfolding rz by blast
    with e have "returns_to_zero text s e"
      by simp
    moreover have "\<not> returns_to_zero text s j" if j: "j < e" for j
    proof
      assume r: "returns_to_zero text s j"
      then have "s \<le> j" by (rule returns_to_zero_ge)
      then obtain i where i: "j = s + i"
        using le_Suc_ex by blast
      with r have "returns_to_zero text s (s + i)"
        by simp
      then obtain k' where "i = length p + 1 + k'" "1 + depth_after (take (Suc k') ys) = 0"
        unfolding rz by blast
      with i j e f [of k'] show False
        by simp
    qed
    ultimately show "returns_to_zero text s e \<and> (\<forall>j<e. \<not> returns_to_zero text s j)"
      by simp
  next
    assume a: "returns_to_zero text s e \<and> (\<forall>j<e. \<not> returns_to_zero text s j)"
    then have "s \<le> e" by (auto dest: returns_to_zero_ge)
    then obtain i where i: "e = s + i"
      using le_Suc_ex by blast
    with a have "returns_to_zero text s (s + i)"
      by simp
    then obtain k where k: "i = length p + 1 + k" "k < length ys"
      "1 + depth_after (take (Suc k) ys) = 0"
      unfolding rz by blast
    have "1 + depth_after (take (Suc j) ys) \<noteq> 0" if j: "j < k" for j
    proof
      assume "1 + depth_after (take (Suc j) ys) = 0"
      with j k(2) have "returns_to_zero text s (s + (length p + 1 + j))"
        unfolding rz by auto
      moreover have "s + (length p + 1 + j) < e"
        using i k(1) j by simp
      ultimately show False
        using a by blast
    qed
    with k have "scan_chars ys 1 = Some k"
      by (simp add: scan_chars_first_zero)
    with i k(1) show "scan text [s..<length text] 0 = Some e"
      by (simp add: sc)
  qed
qed

lemma scan_open_None_iff:
  assumes s: "s \<le> length text"
    and xs: "drop s text = p @ CHR ''{'' # ys"
    and p: "CHR ''{'' \<notin> set p" "CHR ''}'' \<notin> set p"
  shows "scan text [s..<length text] 0 = None \<longleftrightarrow> (\<forall>i. \<not> returns_to_zero text s i)"
proof -
  have "(\<exists>i. returns_to_zero text s i) \<longleftrightarrow>
      (\<exists>e. returns_to_zero text s e \<and> (\<forall>j<e. \<not> returns_to_zero text s j))"
    by (rule exists_least_iff)
  also have "\<dots> \<longleftrightarrow> (\<exists>e. scan text [s..<length text] 0 = Some e)"
    by (simp add: scan_open_Some_iff [OF s xs p])
  finally show ?thesis
    by auto
qed

lemma locate_open_signature:
  assumes "signature = p @ CHR ''{'' # q" and "CHR ''{'' \<notin> set p" and "CHR ''}'' \<notin> set p"
  shows "locate text signature name = Inl (UnbalancedBlock name) \<longleftrightarrow>
           (\<exists>s. first_occurrence signature text s \<and> (\<forall>i. \<not> returns_to_zero text s i))"
proof (cases "find_str text signature")
  case None
  then have "\<not> first_occurrence signature text s" for s
    using find_str_first_occurrence [of "text" signature s] by simp
  with None show ?thesis
    using error_distinct [of name] by (simp add: locate_def)
next
  case (Some s)
  then have fo: "first_occurrence signature text s"
    by (simp add: find_str_first_occurrence)
  then have s: "s \<le> length text" and "prefix signature (drop s text)"
    by (simp_all add: first_occurrence_def)
  then obtain r where "drop s text = p @ CHR ''{'' # (q @ r)"
    using assms(1) by (auto simp: prefix_def)
  note n = scan_open_None_iff [OF s this assms(2,3)]
  have u: "first_occurrence signature text s' \<longleftrightarrow> s' = s" for s'
    using fo first_occurrence_unique [of signature "text" s' s] by auto
  show ?thesis
    using Some n by (auto simp: locate_def u split: option.splits)
qed

lemma locate_script_signatures:
  "locate text start_signature name = Inl (UnbalancedBlock name) \<longleftrightarrow>
     (\<exists>s. first_occurrence start_signature text s \<and> (\<forall>i. \<not> returns_to_zero text s i))"
  "locate text handle_signature name = Inl (UnbalancedBlock name) \<longleftrightarrow>
     (\<exists>s. first_occurrence handle_signature text s \<and> (\<forall>i. \<not> returns_to_zero text s i))"
proof -
  show "locate text start_signature name = Inl (UnbalancedBlock name) \<longleftrightarrow>
     (\<exists>s. first_occurrence start_signature text s \<and> (\<forall>i. \<not> returns_to_zero text s i))"
    by (rule locate_open_signature [where q = "[]" and p = "butlast start_signature"])
      (simp_all add: start_signature_def)
  show "locate text handle_signature name = Inl (UnbalancedBlock name) \<longleftrightarrow>
     (\<exists>s. first_occurrence handle_signature text s \<and> (\<forall>i. \<not> returns_to_zero text s i))"
    by (rule locate_open_signature [where q = "[]" and p = "butlast handle_signature"])
      (simp_all add: handle_signature_def)
qed

subsection \<open>Edits that find nothing to do, and edits on a known block\<close>

lemma remove_imports_absent:
  "\<not> contains text fs_import \<Longrightarrow> \<not> contains text path_import \<Longrightarrow> remove_imports text = text"
  by (simp add: remove_imports_def replace_str_absent)

lemma insert_if_absent_absent:
  "\<not> contains text marker \<Longrightarrow> \<not> contains text anchor \<Longrightarrow>
     insert_if_absent marker anchor replacement text = text"
  by (simp add: insert_if_absent_def replace_str_absent)

lemma locate_and_replace_at:
  assumes "first_occurrence signature (pre @ rest) (length pre)"
    and "scan_chars rest 0 = Some k"
  shows "locate_and_replace signature name new (pre @ rest) =
           Inr (pre @ new @ drop (Suc k) rest)"
proof -
  have "find_str (pre @ rest) signature = Some (length pre)"
    using assms(1) by (simp add: find_str_first_occurrence)
  moreover have "scan (pre @ rest) [length pre..<length (pre @ rest)] 0 = Some (length pre + k)"
    using assms(2) scan_upt [of "length pre" "pre @ rest" 0] by simp
  ultimately show ?thesis
    by (simp add: locate_and_replace_def locate_def replace_block_eq)
qed

lemma locate_and_replace_absent:
  "\<not> contains text signature \<Longrightarrow>
     locate_and_replace signature name new text = Inl (SignatureNotFound name)"
  by (simp add: locate_and_replace_def locate_def find_str_None_iff [symmetric])

subsection \<open>Evaluation on literals\<close>

text \<open>
  Comparing one character at a time, with no conditional left in the rules, keeps the
  evaluation of a search linear in the length of the text.
\<close>

lemma prefix_Cons_same: "prefix (x # xs) (x # ys) = prefix xs ys"
  by simp

lemma prefix_Cons_diff: "x \<noteq> y \<Longrightarrow> prefix (x # xs) (y # ys) = False"
  by simp

lemma scan_chars_open: "scan_chars (CHR ''{'' # cs) d = map_option Suc (scan_chars cs (d + 1))"
  by simp

lemma scan_chars_close:
  "scan_chars (CHR ''}'' # cs) d =
     (if d = 1 then Some 0 else map_option Suc (scan_chars cs (d - 1)))"
  by simp

lemma scan_chars_other:
  "c \<noteq> CHR ''{'' \<Longrightarrow> c \<noteq> CHR ''}'' \<Longrightarrow>
     scan_chars (c # cs) d = map_option Suc (scan_chars cs d)"
  by simp

lemmas string_eval = prefix_Cons_same prefix_Cons_diff scan_chars_open scan_chars_close
  scan_chars_other

lemmas literal_defs = fs_import_def path_import_def field_marker_def target_def
  init_marker_def init_target_def start_signature_def handle_signature_def

subsection \<open>The two runs on the sample file\<close>

lemma sample_source_markers:
  "\<not> contains sample_source fs_import" "\<not> contains sample_source path_import"
  "\<not> contains sample_source field_marker" "\<not> contains sample_source target"
  "\<not> contains sample_source init_marker" "\<not> contains sample_source init_target"
  by (simp_all add: sample_source_def start_signature_def handle_signature_def fs_import_def
      path_import_def field_marker_def target_def init_marker_def init_target_def string_eval
      del: Cons_prefix_Cons)

lemma sample_source_prepared:
  "ensure_init (ensure_field (remove_imports sample_source)) = sample_source"
  by (simp add: sample_source_markers remove_imports_absent ensure_field_def ensure_init_def
      insert_if_absent_absent)

lemma sample_source_replace_start: "replace_start sample_source = Inr sample_after_start"
proof -
  let ?pre = "''class StreamService {\<newline>''"
  let ?rest = "start_signature @ ''\<newline>  }\<newline>\<newline>'' @ handle_signature @
    ''\<newline>  }\<newline>}\<newline>''"
  have fo: "first_occurrence start_signature (?pre @ ?rest) (length ?pre)"
    by (rule first_occurrence_append)
      (simp_all add: start_signature_def string_eval del: Cons_prefix_Cons)
  have sc: "scan_chars ?rest 0 = Some 78"
    by (simp add: start_signature_def string_eval del: scan_chars.simps(2))
  have "sample_source = ?pre @ ?rest"
    by (simp add: sample_source_def)
  moreover have "?pre @ new_start @ drop (Suc 78) ?rest = sample_after_start"
    by (simp add: sample_after_start_def start_signature_def)
  ultimately show ?thesis
    using locate_and_replace_at [OF fo sc, of "''startStreamWithMcp''" new_start]
    by (simp add: replace_start_def)
qed

lemma sample_after_start_replace_handle: "replace_handle sample_after_start = Inr sample_patched"
proof -
  let ?pre = "''class StreamService {\<newline>'' @ new_start @ ''\<newline>\<newline>''"
  let ?rest = "handle_signature @ ''\<newline>  }\<newline>}\<newline>''"
  have fo: "first_occurrence handle_signature (?pre @ ?rest) (length ?pre)"
    by (rule first_occurrence_append)
      (simp_all add: handle_signature_def new_start_def string_eval del: Cons_prefix_Cons)
  have sc: "scan_chars ?rest 0 = Some 85"
    by (simp add: handle_signature_def string_eval del: scan_chars.simps(2))
  have "sample_after_start = ?pre @ ?rest"
    by (simp add: sample_after_start_def)
  moreover have "?pre @ new_handle @ drop (Suc 85) ?rest = sample_patched"
    by (simp add: sample_patched_def handle_signature_def)
  ultimately show ?thesis
    using locate_and_replace_at [OF fo sc, of "''handleStreamFailure''" new_handle]
    by (simp add: replace_handle_def)
qed

lemma patch_sample_source: "patch sample_source = Inr sample_patched"
  by (simp add: patch_def sample_source_prepared sample_source_replace_start
      sample_after_start_replace_handle)

lemma sample_patched_markers:
  "\<not> contains sample_patched fs_import" "\<not> contains sample_patched path_import"
  "\<not> contains sample_patched field_marker" "\<not> contains sample_patched target"
  "\<not> contains sample_patched init_marker" "\<not> contains sample_patched init_target"
  by (simp_all add: sample_patched_def new_start_def new_handle_def fs_import_def
      path_import_def field_marker_def target_def init_marker_def init_target_def string_eval
      del: Cons_prefix_Cons)

lemma sample_patched_prepared:
  "ensure_init (ensure_field (remove_imports sample_patched)) = sample_patched"
  by (simp add: sample_patched_markers remove_imports_absent ensure_field_def ensure_init_def
      insert_if_absent_absent)

lemma sample_patched_replace_start:
  "replace_start sample_patched = Inr sample_rerun_after_start"
proof -
  let ?pre = "''class StreamService {\<newline>''"
  let ?rest = "new_start @ ''\<newline>\<newline>'' @ new_handle @ ''\<newline>}\<newline>''"
  have fo: "first_occurrence start_signature (?pre @ ?rest) (length ?pre)"
    by (rule first_occurrence_append)
      (simp_all add: start_signature_def new_start_def string_eval del: Cons_prefix_Cons)
  have sc: "scan_chars ?rest 0 = Some 1062"
    by (simp add: new_start_def string_eval del: scan_chars.simps(2))
  have "sample_patched = ?pre @ ?rest"
    by (simp add: sample_patched_def)
  moreover have "?pre @ new_start @ drop (Suc 1062) ?rest = sample_rerun_after_start"
    by (simp add: sample_rerun_after_start_def new_start_def)
  ultimately show ?thesis
    using locate_and_replace_at [OF fo sc, of "''startStreamWithMcp''" new_start]
    by (simp add: replace_start_def)
qed

lemma sample_rerun_replace_handle:
  "replace_handle sample_rerun_after_start = Inl (SignatureNotFound ''handleStreamFailure'')"
proof -
  have "\<not> contains sample_rerun_after_start handle_signature"
    by (simp add: sample_rerun_after_start_def new_start_def new_handle_def
        handle_signature_def string_eval del: Cons_prefix_Cons)
  then show ?thesis
    unfolding replace_handle_def by (rule locate_and_replace_absent)
qed

lemma patch_sample_patched:
  "patch sample_patched = Inl (SignatureNotFound ''handleStreamFailure'')"
  by (simp add: patch_def sample_patched_prepared sample_patched_replace_start
      sample_rerun_replace_handle)

lemma sample_rerun_differs: "sample_rerun_after_start \<noteq> sample_patched"
  by (simp add: sample_rerun_after_start_def sample_patched_def new_handle_def)

lemma patch_without_methods:
  "patch ''export {};\<newline>'' = Inl (SignatureNotFound ''startStreamWithMcp'')"
proof -
  have m: "\<not> contains ''export {};\<newline>'' fs_import"
    "\<not> contains ''export {};\<newline>'' path_import"
    "\<not> contains ''export {};\<newline>'' field_marker"
    "\<not> contains ''export {};\<newline>'' target"
    "\<not> contains ''export {};\<newline>'' init_marker"
    "\<not> contains ''export {};\<newline>'' init_target"
    "\<not> contains ''export {};\<newline>'' start_signature"
    by (simp_all add: literal_defs string_eval del: Cons_prefix_Cons)
  then have "ensure_init (ensure_field (remove_imports ''export {};\<newline>'')) =
      ''export {};\<newline>''"
    by (simp add: remove_imports_absent ensure_field_def ensure_init_def
        insert_if_absent_absent)
  then show ?thesis
    using m(7) by (simp add: patch_def replace_start_def locate_and_replace_absent)
qed

subsection \<open>The guarded insertions applied twice\<close>

text \<open>
  A guarded insertion applied to its own result changes nothing: either the marker is
  there, or the anchor is missing as before.
\<close>

lemma contains_append_left: "contains xs m \<Longrightarrow> contains (xs @ ys) m"
  by (auto simp: contains_iff_sublist intro: sublist_appendI sublist_order.order_trans)

lemma replace_str_contains:
  "old \<noteq> [] \<Longrightarrow> contains text old \<Longrightarrow> contains new m \<Longrightarrow>
     contains (replace_str text old new) m"
proof (induction "text" old new rule: replace_str.induct)
  case (1 old new)
  then show ?case by simp
next
  case (2 c cs old new)
  show ?case
  proof (cases "prefix old (c # cs)")
    case True
    with "2.prems" show ?thesis
      by (simp add: contains_append_left del: contains.simps)
  next
    case False
    with "2.prems" have "contains cs old"
      by simp
    with "2.IH"(3) "2.prems" False have "contains (replace_str cs old new) m"
      by simp
    with "2.prems"(1) False show ?thesis
      by simp
  qed
qed

lemma insert_if_absent_idem:
  assumes "anchor \<noteq> []" and "contains replacement marker"
  shows "insert_if_absent marker anchor replacement
           (insert_if_absent marker anchor replacement text) =
         insert_if_absent marker anchor replacement text"
proof (cases "contains text marker")
  case True
  then show ?thesis by (simp add: insert_if_absent_def)
next
  case False
  show ?thesis
  proof (cases "contains text anchor")
    case True
    with assms have "contains (replace_str text anchor replacement) marker"
      by (simp add: replace_str_contains)
    with False show ?thesis by (simp add: insert_if_absent_def)
  next
    case False
    then show ?thesis by (simp add: insert_if_absent_def replace_str_absent)
  qed
qed

lemma ensure_field_idem: "ensure_field (ensure_field text) = ensure_field text"
  unfolding ensure_field_def
  by (rule insert_if_absent_idem)
    (simp_all add: target_def field_decl_def field_marker_def string_eval del: Cons_prefix_Cons)

lemma ensure_init_idem: "ensure_init (ensure_init text) = ensure_init text"
  unfolding ensure_init_def
  by (rule insert_if_absent_idem)
    (simp_all add: init_target_def init_replacement_def init_marker_def string_eval
      del: Cons_prefix_Cons)

section \<open>The claims of the specification\<close>

subsection \<open>Locating a balanced block\<close>

text \<open>
  Claim C1. Let the signature first occur at offset \<open>s\<close>, and let the text from \<open>s\<close> on
  read: a stretch \<open>p\<close> without braces, the opening brace, a balanced \<open>body\<close>, the
  closing brace, and anything after it. Then \<^const>\<open>locate\<close> returns the span from \<open>s\<close> to
  that closing brace, however deep the nesting in \<open>body\<close>; and that offset is the first
  at which the counter has returned to zero after having been incremented.
\<close>

theorem locate_balanced_block:
  assumes "first_occurrence signature text s"
    and "drop s text = p @ CHR ''{'' # body @ CHR ''}'' # rest"
    and "CHR ''{'' \<notin> set p" and "CHR ''}'' \<notin> set p"
    and "balanced body"
  shows "locate text signature name =
           Inr \<lparr>start_index = s, end_index = s + length p + length body + 1\<rparr> \<and>
         returns_to_zero text s (s + length p + length body + 1) \<and>
         (\<forall>j < s + length p + length body + 1. \<not> returns_to_zero text s j)"
proof -
  let ?k = "length p + length body + 1"
  let ?xs = "drop s text"
  have s: "s \<le> length text" and f: "find_str text signature = Some s"
    using assms(1) by (simp_all add: first_occurrence_def find_str_first_occurrence)
  have "scan_chars (body @ CHR ''}'' # rest) 1 = Some (length body)"
    using scan_chars_balanced [OF assms(5), of 1 "CHR ''}'' # rest"] by simp
  then have "scan_chars ?xs 0 = Some ?k"
    unfolding assms(2) using scan_chars_plain [OF assms(3,4)] by simp
  then have "scan text [s..<length text] 0 = Some (s + ?k)"
    using s by (simp add: scan_upt)
  with f have loc: "locate text signature name =
      Inr \<lparr>start_index = s, end_index = s + length p + length body + 1\<rparr>"
    by (simp add: locate_def)
  have len: "length ?xs = length p + length body + length rest + 2"
    unfolding assms(2) by simp
  then have lt: "s + ?k < length text"
    by simp
  have zero: "depth_after p = 0" "depth_after body = 0"
    using assms(3,4,5) by (simp_all add: depth_after_plain balanced_depth)
  have "take (Suc ?k) ?xs = p @ CHR ''{'' # body @ [CHR ''}'']"
    unfolding assms(2) by simp
  then have r: "returns_to_zero text s (s + ?k)"
    using lt zero unfolding returns_to_zero_def segment_drop by simp
  have n: "\<not> returns_to_zero text s j" if j: "j < s + ?k" for j
  proof
    assume a: "returns_to_zero text s j"
    then have "s \<le> j" by (simp add: returns_to_zero_def)
    then obtain m where m: "j = s + m"
      using le_Suc_ex by blast
    with j have mk: "m < ?k" by simp
    from a m have op: "CHR ''{'' \<in> set (take (Suc m) ?xs)"
      and d: "depth_after (take (Suc m) ?xs) = 0"
      by (simp_all add: returns_to_zero_def segment_drop)
    have "length p < Suc m"
    proof (rule ccontr)
      assume "\<not> length p < Suc m"
      then have "take (Suc m) ?xs = take (Suc m) p"
        unfolding assms(2) by simp
      with op have "CHR ''{'' \<in> set p"
        by (auto dest: in_set_takeD)
      with assms(3) show False by simp
    qed
    then obtain r where r: "Suc m = length p + Suc r"
      using less_imp_add_positive [of "length p" "Suc m"]
      by (metis Suc_pred add_Suc_right)
    with mk have "r \<le> length body" by simp
    then have "take (Suc m) ?xs = p @ CHR ''{'' # take r body"
      unfolding assms(2) r by simp
    with d zero(1) balanced_prefix_depth [OF assms(5), of r] show False
      by simp
  qed
  from loc r n show ?thesis
    by (simp add: add.assoc)
qed

text \<open>A block nested three deep.\<close>

theorem locate_balanced_block_witness:
  "locate ''x f() { a { b { c } d } e } y'' ''f() {'' ''f'' =
     Inr \<lparr>start_index = 2, end_index = 26\<rparr> \<and>
   returns_to_zero ''x f() { a { b { c } d } e } y'' 2 26"
proof -
  have c: "balanced '' c ''"
    by (rule balanced_plain) simp_all
  have d: "balanced '' d ''"
    by (rule balanced_plain) simp_all
  have b: "balanced '' b ''"
    by (rule balanced_plain) simp_all
  have e: "balanced '' e ''"
    by (rule balanced_plain) simp_all
  have a: "balanced '' a ''"
    by (rule balanced_plain) simp_all
  have "balanced ('' a '' @ CHR ''{'' # ('' b '' @ CHR ''{'' # '' c '' @ CHR ''}'' # '' d '') @
      CHR ''}'' # '' e '')"
    by (intro balanced_append [OF a] balanced_block balanced_append [OF b] c d e)
  then have body: "balanced '' a { b { c } d } e ''"
    by simp
  have fo: "first_occurrence ''f() {'' ''x f() { a { b { c } d } e } y'' 2"
    by (simp add: find_str_first_occurrence [symmetric])
  have dr: "drop 2 ''x f() { a { b { c } d } e } y'' =
      ''f() '' @ CHR ''{'' # '' a { b { c } d } e '' @ CHR ''}'' # '' y''"
    by simp
  show ?thesis
    using locate_balanced_block [OF fo dr _ _ body, of "''f''"] by simp
qed

subsection \<open>Replacing a span\<close>

text \<open>
  Claim C2. For offsets \<open>start \<le> e \<le> length text\<close> the replacer returns the text before
  \<open>start\<close>, the replacement, and the text behind \<open>e\<close>. The replacement sits in the result
  unchanged at offset \<open>start\<close>, whatever characters it is made of.
\<close>

theorem replace_block_splice:
  assumes "start \<le> e" and "e \<le> length text"
  shows "replace_block text \<lparr>start_index = start, end_index = e\<rparr> new =
           take start text @ new @ drop (e + 1) text \<and>
         take start (replace_block text \<lparr>start_index = start, end_index = e\<rparr> new) =
           take start text \<and>
         take (length new) (drop start (replace_block text \<lparr>start_index = start, end_index = e\<rparr> new)) =
           new \<and>
         drop (start + length new) (replace_block text \<lparr>start_index = start, end_index = e\<rparr> new) =
           drop (e + 1) text"
  using assms by (simp add: replace_block_eq)

theorem replace_block_splice_witness:
  "replace_block ''ab{cd}ef'' \<lparr>start_index = 2, end_index = 5\<rparr> ''{}}{'' = ''ab{}}{ef''"
proof -
  have h: "(2::nat) \<le> 5" "5 \<le> length ''ab{cd}ef''"
    by simp_all
  from replace_block_splice [OF h, of "''{}}{''"] show ?thesis
    by simp
qed

subsection \<open>The failures of locate\<close>



subsection \<open>No write after a failure\<close>

text \<open>
  Claim C4. When the run ends with an error the file system is as it was before; this is
  so when the file is missing and when either block replacement fails. The file is
  written only when both replacements have succeeded, and then with the result of
  \<^const>\<open>patch\<close>.
\<close>

theorem run_all_or_nothing:
  "(\<forall>e. fst (run fs) = Inl e \<longrightarrow> snd (run fs) = fs) \<and>
   (\<forall>text e. fs path = Some text \<and>
      replace_start (ensure_init (ensure_field (remove_imports text))) = Inl e \<longrightarrow>
      run fs = (Inl e, fs)) \<and>
   (\<forall>text text' e. fs path = Some text \<and>
      replace_start (ensure_init (ensure_field (remove_imports text))) = Inr text' \<and>
      replace_handle text' = Inl e \<longrightarrow>
      run fs = (Inl e, fs)) \<and>
   (fst (run fs) = Inr () \<longrightarrow>
      (\<exists>text text' text''. fs path = Some text \<and>
         replace_start (ensure_init (ensure_field (remove_imports text))) = Inr text' \<and>
         replace_handle text' = Inr text'' \<and> patch text = Inr text'' \<and>
         snd (run fs) = fs(path \<mapsto> text'')))"
  by (auto simp: run_def patch_def split: option.splits sum.splits)

theorem run_all_or_nothing_witness:
  "fst (run [path \<mapsto> ''export {};\<newline>'']) = Inl (SignatureNotFound ''startStreamWithMcp'') \<and>
   snd (run [path \<mapsto> ''export {};\<newline>'']) = [path \<mapsto> ''export {};\<newline>''] \<and>
   fst (run [path \<mapsto> sample_source]) = Inr () \<and>
   snd (run [path \<mapsto> sample_source]) = [path \<mapsto> sample_patched]"
proof -
  have f: "fst (run [path \<mapsto> ''export {};\<newline>'']) = Inl (SignatureNotFound ''startStreamWithMcp'')"
    by (simp add: run_def patch_without_methods)
  have s: "fst (run [path \<mapsto> sample_source]) = Inr ()"
    by (simp add: run_def patch_sample_source)
  from run_all_or_nothing [of "[path \<mapsto> ''export {};\<newline>'']"] f
  have "snd (run [path \<mapsto> ''export {};\<newline>'']) = [path \<mapsto> ''export {};\<newline>'']"
    by blast
  moreover from run_all_or_nothing [of "[path \<mapsto> sample_source]"] s
  have "snd (run [path \<mapsto> sample_source]) = [path \<mapsto> sample_patched]"
    by (auto simp: patch_sample_source)
  ultimately show ?thesis
    using f s by simp
qed

subsection \<open>The first occurrence\<close>

text \<open>
  Claim C5. When the signature occurs in the text, once or several times, the search
  returns the offset of its first occurrence, and every span that \<^const>\<open>locate\<close> returns
  starts there.
\<close>

theorem locate_first_occurrence:
  assumes "sublist signature text"
  shows "\<exists>s. first_occurrence signature text s \<and> find_str text signature = Some s \<and>
           (\<forall>sp. locate text signature name = Inr sp \<longrightarrow> start_index sp = s)"
proof -
  from assms obtain s where s: "first_occurrence signature text s"
    by (auto simp: sublist_first_occurrence)
  then have "find_str text signature = Some s"
    by (simp add: find_str_first_occurrence)
  moreover have "start_index sp = s" if "locate text signature name = Inr sp" for sp
    using that s first_occurrence_unique [of signature "text" "start_index sp" s]
    by (simp add: locate_Inr_iff)
  ultimately show ?thesis
    using s by blast
qed

theorem locate_first_occurrence_witness:
  "sublist ''ab'' ''xab{}ab{}'' \<and> first_occurrence ''ab'' ''xab{}ab{}'' 1 \<and>
   find_str ''xab{}ab{}'' ''ab'' = Some 1 \<and>
   locate ''xab{}ab{}'' ''ab'' ''f'' = Inr \<lparr>start_index = 1, end_index = 4\<rparr>"
proof -
  have h: "sublist ''ab'' ''xab{}ab{}''"
    by (simp add: contains_iff_sublist [symmetric])
  have l: "locate ''xab{}ab{}'' ''ab'' ''f'' = Inr \<lparr>start_index = 1, end_index = 4\<rparr>"
    by (simp add: locate_def upt_rec)
  from locate_first_occurrence [OF h, of "''f''"] h l show ?thesis
    by auto
qed

subsection \<open>The guard of an insertion\<close>

text \<open>
  Claim C6. The guard \<^verbatim>\<open>marker in text\<close> holds exactly when the marker is a contiguous
  part of the text, character for character. It is a total function of the text and
  the marker, so it raises nothing and changes nothing. When it holds, the guarded
  insertion leaves the text as it is; this applies to both insertions of the script.
\<close>

theorem idempotency_guard:
  "(contains text marker \<longleftrightarrow> sublist marker text) \<and>
   (contains text marker \<longrightarrow> insert_if_absent marker anchor replacement text = text) \<and>
   (contains text field_marker \<longrightarrow> ensure_field text = text) \<and>
   (contains text init_marker \<longrightarrow> ensure_init text = text)"
  by (simp add: contains_iff_sublist insert_if_absent_def ensure_field_def ensure_init_def)

theorem idempotency_guard_witness:
  "contains ''a = 1; flagSet = true; b = 2;'' ''flagSet = true;'' \<and>
   sublist ''flagSet = true;'' ''a = 1; flagSet = true; b = 2;'' \<and>
   insert_if_absent ''flagSet = true;'' ''a = 1;'' ''a = 1; flagSet = true;''
     ''a = 1; flagSet = true; b = 2;'' = ''a = 1; flagSet = true; b = 2;''"
proof -
  have h: "contains ''a = 1; flagSet = true; b = 2;'' ''flagSet = true;''"
    by simp
  from idempotency_guard [of "''a = 1; flagSet = true; b = 2;''" "''flagSet = true;''"
      "''a = 1;''" "''a = 1; flagSet = true;''"] h
  show ?thesis
    by blast
qed

subsection \<open>Running the script twice\<close>

text \<open>
  Claim C7 says that a second run on the result of a successful first run gives the same
  text. The guarded insertions do repeat without effect (\<open>ensure_field_idem\<close>,
  \<open>ensure_init_idem\<close>); the block replacements do not. On the sample file the first run
  succeeds, and the second run stops with \<^verbatim>\<open>handleStreamFailure not found\<close>: the new
  text of that method declares \<^verbatim>\<open>rawError: unknown\<close>, the signature searched for has
  \<^verbatim>\<open>rawError: any\<close>. Before that, the second run has replaced the first method again
  and left one more newline behind it, since the new text ends with a newline behind its
  closing brace and the span ends at the brace.
\<close>

theorem patch_rerun_fails:
  "patch sample_source = Inr sample_patched \<and>
   patch sample_patched = Inl (SignatureNotFound ''handleStreamFailure'') \<and>
   replace_start sample_patched = Inr sample_rerun_after_start \<and>
   sample_rerun_after_start \<noteq> sample_patched"
  using patch_sample_source patch_sample_patched sample_patched_replace_start
    sample_rerun_differs
  by simp

subsection \<open>The scenario of the specification\<close>

text \<open>
  Claim C8. In \<^verbatim>\<open>fn foo() { if (x) { y(); } }\<close> the signature \<^verbatim>\<open>fn foo() {\<close> is located
  from offset 0 to the last brace, and replacing that span by \<^verbatim>\<open>fn foo() { return 1; }\<close>
  gives exactly the replacement. With text before and behind the block, where the
  signature does not occur earlier, both are kept as they are.
\<close>

theorem locate_and_replace_foo:
  "locate ''fn foo() { if (x) { y(); } }'' ''fn foo() {'' name =
     Inr \<lparr>start_index = 0, end_index = 27\<rparr> \<and>
   locate_and_replace ''fn foo() {'' name ''fn foo() { return 1; }''
     ''fn foo() { if (x) { y(); } }'' = Inr ''fn foo() { return 1; }'' \<and>
   (first_occurrence ''fn foo() {'' (pre @ ''fn foo() { if (x) { y(); } }'' @ post)
      (length pre) \<longrightarrow>
    locate_and_replace ''fn foo() {'' name ''fn foo() { return 1; }''
      (pre @ ''fn foo() { if (x) { y(); } }'' @ post) =
      Inr (pre @ ''fn foo() { return 1; }'' @ post))"
proof -
  have sc: "scan_chars (''fn foo() { if (x) { y(); } }'' @ zs) 0 = Some 27" for zs
    by simp
  have l: "locate ''fn foo() { if (x) { y(); } }'' ''fn foo() {'' name =
      Inr \<lparr>start_index = 0, end_index = 27\<rparr>"
    using sc [of "[]"] scan_upt [of 0 "''fn foo() { if (x) { y(); } }''" 0]
    by (simp add: locate_def)
  have r: "locate_and_replace ''fn foo() {'' name ''fn foo() { return 1; }''
      (pre @ ''fn foo() { if (x) { y(); } }'' @ post) =
      Inr (pre @ ''fn foo() { return 1; }'' @ post)"
    if "first_occurrence ''fn foo() {'' (pre @ ''fn foo() { if (x) { y(); } }'' @ post)
      (length pre)"
    using locate_and_replace_at [OF that sc] by simp
  from l show ?thesis
    using r by (simp add: locate_and_replace_def replace_block_eq)
qed

theorem locate_and_replace_foo_witness:
  "first_occurrence ''fn foo() {''
     (''// a\<newline>'' @ ''fn foo() { if (x) { y(); } }'' @ ''\<newline>fn bar() { }'')
     (length ''// a\<newline>'') \<and>
   locate_and_replace ''fn foo() {'' ''foo'' ''fn foo() { return 1; }''
     ''// a\<newline>fn foo() { if (x) { y(); } }\<newline>fn bar() { }'' =
     Inr ''// a\<newline>fn foo() { return 1; }\<newline>fn bar() { }''"
proof -
  have fo: "first_occurrence ''fn foo() {''
      (''// a\<newline>'' @ ''fn foo() { if (x) { y(); } }'' @ ''\<newline>fn bar() { }'')
      (length ''// a\<newline>'')"
    by (rule first_occurrence_append) simp_all
  from locate_and_replace_foo [of "''foo''" "''// a\<newline>''" "''\<newline>fn bar() { }''"] fo
  show ?thesis
    by simp
qed

subsection \<open>The span fits the replacer\<close>

text \<open>
  Claim C9. A span returned by \<^const>\<open>locate\<close> has \<open>start \<le> end < length text\<close>, and the
  character at \<open>end\<close> is a close brace. Both slice bounds of the replacement are inside
  the text, so neither is clamped, and the result is the text before \<open>start\<close>, the new
  text, and the text behind \<open>end\<close>.
\<close>

theorem locate_span_valid:
  assumes "locate text signature name = Inr sp"
  shows "start_index sp \<le> end_index sp \<and> end_index sp < length text \<and>
         text ! end_index sp = CHR ''}'' \<and>
         slice_bound (length text) (int (start_index sp)) = start_index sp \<and>
         slice_bound (length text) (int (end_index sp) + 1) = end_index sp + 1 \<and>
         replace_block text sp new =
           take (start_index sp) text @ new @ drop (end_index sp + 1) text"
proof -
  from assms have "closes_at text (start_index sp) (end_index sp)"
    by (simp add: locate_Inr_iff)
  then have "start_index sp \<le> end_index sp" "end_index sp < length text"
    "text ! end_index sp = CHR ''}''"
    by (simp_all add: closes_at_def)
  then show ?thesis
    by (simp add: slice_bound_def replace_block_eq)
qed

theorem locate_span_valid_witness:
  "locate ''ab f{c{d}e}gh'' ''f{'' ''f'' = Inr \<lparr>start_index = 3, end_index = 10\<rparr> \<and>
   (3::nat) \<le> 10 \<and> 10 < length ''ab f{c{d}e}gh'' \<and> ''ab f{c{d}e}gh'' ! 10 = CHR ''}'' \<and>
   replace_block ''ab f{c{d}e}gh'' \<lparr>start_index = 3, end_index = 10\<rparr> ''f{}'' = ''ab f{}gh''"
proof -
  have l: "locate ''ab f{c{d}e}gh'' ''f{'' ''f'' = Inr \<lparr>start_index = 3, end_index = 10\<rparr>"
    by (simp add: locate_def upt_rec)
  from locate_span_valid [OF l, of "''f{}''"] l show ?thesis
    by simp
qed

subsection \<open>An insertion without its anchor\<close>

text \<open>
  Claim C10. When the marker is absent and the anchor is absent too, the insertion
  replaces nothing and returns the text as it is. The result is a text, not an error:
  unlike a missing signature, a missing anchor does not stop the run.
\<close>

theorem insert_if_absent_missing_anchor:
  "(\<not> contains text marker \<and> \<not> contains text anchor \<longrightarrow>
      insert_if_absent marker anchor replacement text = text) \<and>
   (\<not> contains text field_marker \<and> \<not> contains text target \<longrightarrow> ensure_field text = text) \<and>
   (\<not> contains text init_marker \<and> \<not> contains text init_target \<longrightarrow> ensure_init text = text)"
  by (simp add: insert_if_absent_def ensure_field_def ensure_init_def replace_str_absent)

theorem insert_if_absent_missing_anchor_witness:
  "\<not> contains ''export {};\<newline>'' field_marker \<and> \<not> contains ''export {};\<newline>'' target \<and>
   ensure_field ''export {};\<newline>'' = ''export {};\<newline>'' \<and>
   \<not> contains ''export {};\<newline>'' init_marker \<and> \<not> contains ''export {};\<newline>'' init_target \<and>
   ensure_init ''export {};\<newline>'' = ''export {};\<newline>''"
proof -
  have m: "\<not> contains ''export {};\<newline>'' field_marker"
    "\<not> contains ''export {};\<newline>'' target"
    "\<not> contains ''export {};\<newline>'' init_marker"
    "\<not> contains ''export {};\<newline>'' init_target"
    by (simp_all add: literal_defs string_eval del: Cons_prefix_Cons)
  from insert_if_absent_missing_anchor [of "''export {};\<newline>''"] m show ?thesis
    by blast
qed

end
